theory Spec2Isabelle
  imports Main
begin

section \<open>Data model of \<open>branchless/graph.py\<close>\<close>

text \<open>
  An object identifier is the hexadecimal string of the source (\<open>OidStr\<close>); the model
  does not distinguish \<open>pygit2.Oid\<close> from its \<open>.hex\<close>.
\<close>

type_synonym OidStr = string

text \<open>
  A \<open>pygit2.Commit\<close> carries its identifier and its parent commits. The object store is
  content-addressed, so the ancestry of a commit is a finite tree of commit objects.
\<close>

datatype Commit = Commit (oid: OidStr) (parents: "Commit list")

definition parent_ids :: "Commit \<Rightarrow> OidStr list" where
  "parent_ids c = map oid (parents c)"

datatype Visibility = Visible | Hidden

datatype error = KeyError | IndexError | RecursionError

text \<open>
  The \<open>Node\<close> dataclass. The \<open>children\<close> set is kept as a duplicate-free list, in the
  order in which the set is iterated.
\<close>

record 'e Node =
  commit :: Commit
  parent :: "OidStr option"
  children :: "OidStr list"
  is_master :: bool
  is_visible :: bool
  event :: "'e option"

text \<open>\<open>CommitGraph = Dict[OidStr, Node]\<close>: an insertion-ordered dictionary.\<close>

type_synonym 'e CommitGraph = "(OidStr \<times> 'e Node) list"

text \<open>
  The parts of \<open>pygit2.Repository\<close> that the source reads: \<open>repo[oid]\<close>,
  \<open>repo.references["HEAD"].resolve().target\<close> and the local branches with their targets.
\<close>

record Repository =
  objects :: "OidStr \<Rightarrow> Commit option"
  head_target :: "OidStr option"
  local_branches :: "(string \<times> OidStr) list"

text \<open>\<open>MergeBaseDb.get_merge_base_oid(repo, lhs_oid, rhs_oid)\<close>, taken as a parameter.\<close>

type_synonym MergeBaseDb = "OidStr \<Rightarrow> OidStr \<Rightarrow> OidStr option"

text \<open>The three queries of \<open>EventReplayer\<close> that the source calls, taken as parameters.\<close>

record 'e EventReplayer =
  get_active_oids :: "OidStr list"
  get_commit_visibility :: "OidStr \<Rightarrow> Visibility option"
  get_commit_latest_event :: "OidStr \<Rightarrow> 'e option"

section \<open>\<open>find_path_to_merge_base\<close>\<close>

fun csize :: "Commit \<Rightarrow> nat" where
  "csize (Commit i ps) = Suc (sum_list (map csize ps))"

text \<open>
  The \<open>while not queue.empty()\<close> loop; the queue holds paths, oldest first. The source
  looks every parent up again with \<open>repo[parent.oid]\<close> ("For test: ... so that we can
  track it"), which returns the same commit object and is not modelled.
\<close>

function find_path_loop ::
  "OidStr \<Rightarrow> OidStr option \<Rightarrow> Commit list list \<Rightarrow> error + Commit list option" where
  "find_path_loop target_oid merge_base_oid [] = Inr None"
| "find_path_loop target_oid merge_base_oid ([] # queue) = Inl IndexError"
| "find_path_loop target_oid merge_base_oid ((c # cs) # queue) =
     (if oid (last (c # cs)) = target_oid then Inr (Some (c # cs))
      else if Some (oid (last (c # cs))) = merge_base_oid
        then find_path_loop target_oid merge_base_oid queue
      else find_path_loop target_oid merge_base_oid
             (queue @ map (\<lambda>p. (c # cs) @ [p]) (parents (last (c # cs)))))"
  by pat_completeness auto

lemma csize_pos: "0 < csize c"
  by (cases c) simp

lemma csize_parents: "csize c = Suc (sum_list (map csize (parents c)))"
  by (cases c) simp

lemma sum_csize_extend:
  "sum_list (map (\<lambda>p. csize (last p)) (map (\<lambda>p. path @ [p]) ps)) = sum_list (map csize ps)"
  by (induction ps) simp_all

termination find_path_loop
  apply (relation "measure (\<lambda>(t, m, q). sum_list (map (\<lambda>p. csize (last p)) q))")
    apply simp
   apply (simp add: csize_pos)
  apply (simp only: in_measure prod.case map_append sum_list.append sum_csize_extend list.map
      sum_list.Cons)
  apply (subst (2) csize_parents)
  apply simp
  done

definition find_path_to_merge_base ::
  "Repository \<Rightarrow> MergeBaseDb \<Rightarrow> OidStr \<Rightarrow> OidStr \<Rightarrow> error + Commit list option" where
  "find_path_to_merge_base repo merge_base_db commit_oid target_oid =
     (case objects repo commit_oid of
        None \<Rightarrow> Inl KeyError
      | Some start \<Rightarrow>
          find_path_loop target_oid (merge_base_db commit_oid target_oid) [[start]])"

section \<open>\<open>_walk_from_commits\<close>\<close>

definition resolve_visibility :: "Visibility option \<Rightarrow> bool" where
  "resolve_visibility visibility =
     (case visibility of None \<Rightarrow> True | Some Visible \<Rightarrow> True | Some Hidden \<Rightarrow> False)"

text \<open>
  The inner loop \<open>for current_commit in path_to_merge_base\<close>, with its \<open>break\<close> at the
  first commit that is already a key of the graph.
\<close>

fun add_path ::
  "'e EventReplayer \<Rightarrow> OidStr option \<Rightarrow> Commit list \<Rightarrow> 'e CommitGraph \<Rightarrow> 'e CommitGraph" where
  "add_path event_replayer merge_base_oid [] graph = graph"
| "add_path event_replayer merge_base_oid (current_commit # rest) graph =
     (if oid current_commit \<in> fst ` set graph then graph
      else add_path event_replayer merge_base_oid rest
             (graph @ [(oid current_commit,
                \<lparr>commit = current_commit,
                 parent = None,
                 children = [],
                 is_master = (case merge_base_oid of
                                None \<Rightarrow> False
                              | Some m \<Rightarrow> oid current_commit = m),
                 is_visible = resolve_visibility
                                (get_commit_visibility event_replayer (oid current_commit)),
                 event = get_commit_latest_event event_replayer (oid current_commit)\<rparr>)]))"

text \<open>
  The outer loop \<open>for commit_oid_hex in commit_oids\<close>; the list is the set in the order
  of its iteration. \<open>repo[commit_oid_hex]\<close> raises \<open>KeyError\<close> for an unknown object;
  the two \<open>logging.warning\<close> calls have no effect on the graph.
\<close>

fun walk_commits ::
  "Repository \<Rightarrow> MergeBaseDb \<Rightarrow> 'e EventReplayer \<Rightarrow> OidStr \<Rightarrow> OidStr list
     \<Rightarrow> 'e CommitGraph \<Rightarrow> error + 'e CommitGraph" where
  "walk_commits repo merge_base_db event_replayer master_oid [] graph = Inr graph"
| "walk_commits repo merge_base_db event_replayer master_oid (commit_oid_hex # rest) graph =
     (case objects repo commit_oid_hex of
        None \<Rightarrow> Inl KeyError
      | Some current_commit \<Rightarrow>
          (case merge_base_db (oid current_commit) master_oid of
             None \<Rightarrow>
               walk_commits repo merge_base_db event_replayer master_oid rest
                 (add_path event_replayer None [current_commit] graph)
           | Some merge_base_oid \<Rightarrow>
               (case find_path_to_merge_base repo merge_base_db (oid current_commit)
                       merge_base_oid of
                  Inl e \<Rightarrow> Inl e
                | Inr None \<Rightarrow>
                    walk_commits repo merge_base_db event_replayer master_oid rest graph
                | Inr (Some path_to_merge_base) \<Rightarrow>
                    walk_commits repo merge_base_db event_replayer master_oid rest
                      (add_path event_replayer (Some merge_base_oid) path_to_merge_base
                         graph))))"

definition upd_node ::
  "OidStr \<Rightarrow> ('e Node \<Rightarrow> 'e Node) \<Rightarrow> 'e CommitGraph \<Rightarrow> 'e CommitGraph" where
  "upd_node k f graph = map (\<lambda>(k', n). if k' = k then (k', f n) else (k', n)) graph"

definition set_add :: "'a \<Rightarrow> 'a list \<Rightarrow> 'a list" where
  "set_add x xs = (if x \<in> set xs then xs else xs @ [x])"

text \<open>
  The local function \<open>link\<close>. Both identifiers are keys of the graph at its only call
  site, so neither subscript can raise there.
\<close>

definition link :: "OidStr \<Rightarrow> OidStr \<Rightarrow> 'e CommitGraph \<Rightarrow> 'e CommitGraph" where
  "link parent_oid child_oid graph =
     upd_node parent_oid (\<lambda>n. n\<lparr>children := set_add child_oid (children n)\<rparr>)
       (upd_node child_oid (\<lambda>n. n\<lparr>parent := Some parent_oid\<rparr>) graph)"

definition link_parents :: "OidStr \<Rightarrow> OidStr list \<Rightarrow> 'e CommitGraph \<Rightarrow> 'e CommitGraph" where
  "link_parents child_oid pids graph =
     fold (\<lambda>parent_oid g. if parent_oid \<in> fst ` set g then link parent_oid child_oid g else g)
       pids graph"

text \<open>
  The linking pass \<open>for oid, node in graph.items()\<close>. It reads \<open>is_master\<close> and
  \<open>commit\<close> of each node, which \<open>link\<close> never writes, so the items are taken from the
  graph as it is when the pass starts.
\<close>

definition link_node :: "OidStr \<times> 'e Node \<Rightarrow> 'e CommitGraph \<Rightarrow> 'e CommitGraph" where
  "link_node item g =
     (case item of
        (k, node) \<Rightarrow>
          if is_master node then g else link_parents k (parent_ids (commit node)) g)"

definition link_all :: "'e CommitGraph \<Rightarrow> 'e CommitGraph" where
  "link_all graph = fold link_node graph graph"

text \<open>The parameters \<open>branch_oids\<close> and \<open>head_oid\<close> of the source are never read.\<close>

definition walk_from_commits ::
  "Repository \<Rightarrow> MergeBaseDb \<Rightarrow> 'e EventReplayer \<Rightarrow> OidStr \<Rightarrow> OidStr list
     \<Rightarrow> error + 'e CommitGraph" where
  "walk_from_commits repo merge_base_db event_replayer master_oid commit_oids =
     (case walk_commits repo merge_base_db event_replayer master_oid commit_oids [] of
        Inl e \<Rightarrow> Inl e
      | Inr graph \<Rightarrow> Inr (link_all graph))"

section \<open>\<open>_hide_commits\<close>\<close>

text \<open>
  Python's \<open>all\<close> over a generator: it stops at the first \<open>False\<close>, and an exception
  raised by an element before that propagates.
\<close>

fun all_py :: "(error + bool) list \<Rightarrow> error + bool" where
  "all_py [] = Inr True"
| "all_py (Inl e # rs) = Inl e"
| "all_py (Inr False # rs) = Inr False"
| "all_py (Inr True # rs) = all_py rs"

text \<open>
  The local function \<open>should_hide\<close>. Its recursion follows the \<open>children\<close> sets and is
  bounded only by the interpreter's stack, which raises \<open>RecursionError\<close>: the first
  argument is the depth still available. \<open>lru_cache\<close> stores results and changes none.
  A child that is a master node is skipped by the generator's filter, which counts as
  \<open>True\<close> for \<open>all\<close>.
\<close>

primrec should_hide ::
  "nat \<Rightarrow> 'e CommitGraph \<Rightarrow> OidStr set \<Rightarrow> OidStr \<Rightarrow> error + bool" where
  "should_hide 0 graph unhideable_oids k = Inl RecursionError"
| "should_hide (Suc depth) graph unhideable_oids k =
     (if k \<in> unhideable_oids then Inr False
      else case map_of graph k of
        None \<Rightarrow> Inl KeyError
      | Some node \<Rightarrow>
          if is_master node then
            (if is_visible node then
               all_py (map (\<lambda>child_oid.
                              case map_of graph child_oid of
                                None \<Rightarrow> Inl KeyError
                              | Some child \<Rightarrow>
                                  if is_master child then Inr True
                                  else should_hide depth graph unhideable_oids child_oid)
                         (children node))
             else Inr False)
          else
            (if \<not> is_visible node then
               all_py (map (should_hide depth graph unhideable_oids) (children node))
             else Inr False))"

text \<open>The set comprehension \<open>all_oids_to_hide\<close>, over the keys in dictionary order.\<close>

fun all_oids_to_hide ::
  "nat \<Rightarrow> 'e CommitGraph \<Rightarrow> OidStr set \<Rightarrow> OidStr list \<Rightarrow> error + OidStr list" where
  "all_oids_to_hide depth graph unhideable_oids [] = Inr []"
| "all_oids_to_hide depth graph unhideable_oids (k # ks) =
     (case should_hide depth graph unhideable_oids k of
        Inl e \<Rightarrow> Inl e
      | Inr b \<Rightarrow>
          (case all_oids_to_hide depth graph unhideable_oids ks of
             Inl e \<Rightarrow> Inl e
           | Inr hs \<Rightarrow> Inr (if b then k # hs else hs)))"

definition del_node :: "OidStr \<Rightarrow> 'e CommitGraph \<Rightarrow> 'e CommitGraph" where
  "del_node k graph = filter (\<lambda>(k', n). k' \<noteq> k) graph"

text \<open>
  The loop \<open>for oid in all_oids_to_hide\<close>. The graph is mutated in place, so the result
  is the graph as the loop leaves it, with the exception that stopped it, if any
  (\<open>set.remove\<close> raises \<open>KeyError\<close> for a missing element).
\<close>

fun remove_hidden :: "OidStr list \<Rightarrow> 'e CommitGraph \<Rightarrow> error option \<times> 'e CommitGraph" where
  "remove_hidden [] graph = (None, graph)"
| "remove_hidden (k # ks) graph =
     (case map_of graph k of
        None \<Rightarrow> (Some KeyError, graph)
      | Some node \<Rightarrow>
          (case parent node of
             None \<Rightarrow> remove_hidden ks (del_node k graph)
           | Some parent_oid \<Rightarrow>
               (case map_of (del_node k graph) parent_oid of
                  None \<Rightarrow> remove_hidden ks (del_node k graph)
                | Some parent_node \<Rightarrow>
                    if k \<in> set (children parent_node) then
                      remove_hidden ks
                        (upd_node parent_oid (\<lambda>n. n\<lparr>children := removeAll k (children n)\<rparr>)
                           (del_node k graph))
                    else (Some KeyError, del_node k graph))))"

text \<open>
  \<open>_hide_commits\<close> returns nothing and works on the caller's graph: the model returns
  that graph after the call, and the exception if one was raised. An exception in the
  comprehension leaves the graph untouched.
\<close>

definition hide_commits ::
  "nat \<Rightarrow> 'e CommitGraph \<Rightarrow> OidStr set \<Rightarrow> OidStr \<Rightarrow> error option \<times> 'e CommitGraph" where
  "hide_commits depth graph branch_oids head_oid =
     (let unhideable_oids = branch_oids \<union> {head_oid} in
      case all_oids_to_hide depth graph unhideable_oids (map fst graph) of
        Inl e \<Rightarrow> (Some e, graph)
      | Inr hs \<Rightarrow> remove_hidden hs graph)"

section \<open>\<open>make_graph\<close>\<close>

definition make_graph ::
  "nat \<Rightarrow> Repository \<Rightarrow> MergeBaseDb \<Rightarrow> 'e EventReplayer \<Rightarrow> OidStr \<Rightarrow> bool
     \<Rightarrow> error + (OidStr \<times> 'e CommitGraph)" where
  "make_graph depth repo merge_base_db event_replayer master_oid hide =
     (case head_target repo of
        None \<Rightarrow> Inl KeyError
      | Some head_oid \<Rightarrow>
          (let branch_oids = map snd (local_branches repo);
               commit_oids = remdups (get_active_oids event_replayer @ branch_oids @ [head_oid])
           in case walk_from_commits repo merge_base_db event_replayer master_oid commit_oids of
                Inl e \<Rightarrow> Inl e
              | Inr graph \<Rightarrow>
                  if hide then
                    (case hide_commits depth graph (set branch_oids) head_oid of
                       (Some e, g) \<Rightarrow> Inl e
                     | (None, g) \<Rightarrow> Inr (head_oid, g))
                  else Inr (head_oid, graph)))"

section \<open>Ancestry and merge-bases\<close>

fun ancestors :: "Commit \<Rightarrow> Commit list" where
  "ancestors (Commit i ps) = concat (map (\<lambda>p. p # ancestors p) ps)"

text \<open>An ancestry path: every commit is followed by one of its parents.\<close>

fun is_ancestry_path :: "Commit list \<Rightarrow> bool" where
  "is_ancestry_path [] = True"
| "is_ancestry_path [c] = True"
| "is_ancestry_path (c # d # rest) = (d \<in> set (parents c) \<and> is_ancestry_path (d # rest))"

text \<open>
  \<open>is_ancestor a b\<close>: commit \<open>a\<close> is a proper ancestor of commit \<open>b\<close>, that is, \<open>a\<close> is
  reached from \<open>b\<close> by one or more parent links.
\<close>

definition is_ancestor :: "Commit \<Rightarrow> Commit \<Rightarrow> bool" where
  "is_ancestor a b = (oid a \<in> set (map oid (ancestors b)))"

text \<open>
  Modelled from the spec: the merge-base computation of \<open>branchless/mergebase.py\<close> is
  not part of the sources. The glossary defines the merge-base as the nearest common
  ancestor of two commits: a commit that both reach (each commit reaches itself), with no
  other commit reached by both lying below it.
\<close>

definition is_merge_base :: "Commit \<Rightarrow> Commit \<Rightarrow> OidStr \<Rightarrow> bool" where
  "is_merge_base a b m =
     (m \<in> set (map oid (a # ancestors a)) \<and> m \<in> set (map oid (b # ancestors b)) \<and>
      (\<forall>x \<in> set (a # ancestors a) \<union> set (b # ancestors b).
         oid x \<in> set (map oid (a # ancestors a)) \<and> oid x \<in> set (map oid (b # ancestors b))
           \<and> oid x \<noteq> m
         \<longrightarrow> m \<notin> set (map oid (ancestors x))))"

section \<open>Reading a graph\<close>

text \<open>
  \<open>graph[k].parent\<close> and \<open>graph[k].children\<close>, read as absent and as empty where \<open>k\<close> is
  not a key, and the node at \<open>k\<close> without its two link fields.
\<close>

definition node_parent :: "'e CommitGraph \<Rightarrow> OidStr \<Rightarrow> OidStr option" where
  "node_parent graph k = (case map_of graph k of None \<Rightarrow> None | Some n \<Rightarrow> parent n)"

definition node_children :: "'e CommitGraph \<Rightarrow> OidStr \<Rightarrow> OidStr set" where
  "node_children graph k = (case map_of graph k of None \<Rightarrow> {} | Some n \<Rightarrow> set (children n))"

definition node_static :: "'e CommitGraph \<Rightarrow> OidStr \<Rightarrow> 'e Node option" where
  "node_static graph k = map_option (\<lambda>n. n\<lparr>parent := None, children := []\<rparr>) (map_of graph k)"

text \<open>
  Two keys are joined by a parent link when one is the \<open>parent\<close> field of the other; they
  are joined by a link when, moreover, one may be in the \<open>children\<close> set of the other.
\<close>

definition parent_linked :: "'e CommitGraph \<Rightarrow> OidStr \<Rightarrow> OidStr \<Rightarrow> bool" where
  "parent_linked graph a b = (node_parent graph a = Some b \<or> node_parent graph b = Some a)"

definition linked :: "'e CommitGraph \<Rightarrow> OidStr \<Rightarrow> OidStr \<Rightarrow> bool" where
  "linked graph a b =
     (parent_linked graph a b \<or> b \<in> node_children graph a \<or> a \<in> node_children graph b)"

text \<open>An ancestry path that starts at the commit \<open>c\<close> and ends at a commit named \<open>t\<close>.\<close>

definition is_path_from_to :: "Commit \<Rightarrow> OidStr \<Rightarrow> Commit list \<Rightarrow> bool" where
  "is_path_from_to c t q = (q \<noteq> [] \<and> hd q = c \<and> is_ancestry_path q \<and> oid (last q) = t)"

section \<open>Example repositories\<close>

text \<open>
  A linear history \<open>M \<leftarrow> A \<leftarrow> B \<leftarrow> C\<close>: \<open>master\<close> is at \<open>M\<close>, the branch \<open>feature\<close> and
  \<open>HEAD\<close> are at \<open>C\<close>, and the event log has hidden \<open>A\<close> and \<open>B\<close> and reports no active
  commit. The merge-base of every commit with \<open>M\<close> is \<open>M\<close>.
\<close>

definition commit_M :: Commit where "commit_M = Commit ''M'' []"
definition commit_A :: Commit where "commit_A = Commit ''A'' [commit_M]"
definition commit_B :: Commit where "commit_B = Commit ''B'' [commit_A]"
definition commit_C :: Commit where "commit_C = Commit ''C'' [commit_B]"

definition linear_repo :: Repository where
  "linear_repo =
     \<lparr>objects = map_of [(''M'', commit_M), (''A'', commit_A), (''B'', commit_B), (''C'', commit_C)],
      head_target = Some ''C'',
      local_branches = [(''master'', ''M''), (''feature'', ''C'')]\<rparr>"

definition merge_base_is_M :: MergeBaseDb where
  "merge_base_is_M lhs_oid rhs_oid = Some ''M''"

definition linear_events :: "unit EventReplayer" where
  "linear_events =
     \<lparr>get_active_oids = [],
      get_commit_visibility = (\<lambda>k. if k = ''A'' \<or> k = ''B'' then Some Hidden else None),
      get_commit_latest_event = (\<lambda>k. None)\<rparr>"

text \<open>
  A merge: \<open>P1\<close> and \<open>P2\<close> are children of \<open>M\<close>, and \<open>X\<close> merges them. \<open>master\<close> and
  \<open>HEAD\<close> are at \<open>M\<close>; the event log reports \<open>X\<close>, \<open>P1\<close> and \<open>P2\<close> as active and \<open>X\<close> as
  hidden.
\<close>

definition commit_P1 :: Commit where "commit_P1 = Commit ''P1'' [commit_M]"
definition commit_P2 :: Commit where "commit_P2 = Commit ''P2'' [commit_M]"
definition commit_X :: Commit where "commit_X = Commit ''X'' [commit_P1, commit_P2]"

definition merge_repo :: Repository where
  "merge_repo =
     \<lparr>objects = map_of [(''M'', commit_M), (''P1'', commit_P1), (''P2'', commit_P2),
                        (''X'', commit_X)],
      head_target = Some ''M'',
      local_branches = [(''master'', ''M'')]\<rparr>"

definition merge_events :: "unit EventReplayer" where
  "merge_events =
     \<lparr>get_active_oids = [''X'', ''P1'', ''P2''],
      get_commit_visibility = (\<lambda>k. if k = ''X'' then Some Hidden else Some Visible),
      get_commit_latest_event = (\<lambda>k. None)\<rparr>"

text \<open>
  Two commits without a merge-base with \<open>master\<close>: \<open>O1\<close> is a root, \<open>O2\<close> is its child,
  and the history of \<open>M\<close> is unrelated to them.
\<close>

definition commit_O1 :: Commit where "commit_O1 = Commit ''O1'' []"
definition commit_O2 :: Commit where "commit_O2 = Commit ''O2'' [commit_O1]"

definition orphan_repo :: Repository where
  "orphan_repo =
     \<lparr>objects = map_of [(''M'', commit_M), (''O1'', commit_O1), (''O2'', commit_O2)],
      head_target = Some ''O2'',
      local_branches = [(''master'', ''M''), (''old'', ''O1'')]\<rparr>"

definition orphan_merge_base :: MergeBaseDb where
  "orphan_merge_base lhs_oid rhs_oid = (if lhs_oid = ''M'' then Some ''M'' else None)"

definition no_events :: "unit EventReplayer" where
  "no_events =
     \<lparr>get_active_oids = [], get_commit_visibility = (\<lambda>k. None),
      get_commit_latest_event = (\<lambda>k. None)\<rparr>"

text \<open>
  A merge on \<open>master\<close>: the tip \<open>T\<close> of \<open>master\<close> merges \<open>P1\<close> and \<open>P2\<close>, at which the
  branches \<open>b1\<close> and \<open>b2\<close> still point. Each of the three is its own merge-base with \<open>T\<close>.
\<close>

definition commit_T :: Commit where "commit_T = Commit ''T'' [commit_P1, commit_P2]"

definition trunk_merge_repo :: Repository where
  "trunk_merge_repo =
     \<lparr>objects = map_of [(''M'', commit_M), (''P1'', commit_P1), (''P2'', commit_P2),
                        (''T'', commit_T)],
      head_target = Some ''T'',
      local_branches = [(''master'', ''T''), (''b1'', ''P1''), (''b2'', ''P2'')]\<rparr>"

definition merge_base_is_lhs :: MergeBaseDb where
  "merge_base_is_lhs lhs_oid rhs_oid = Some lhs_oid"

text \<open>
  Two points of \<open>master\<close>: \<open>M2\<close> is the tip of \<open>master\<close> and a child of \<open>M1\<close>; \<open>F1\<close>
  branches off \<open>M1\<close>, \<open>F2\<close> off \<open>M2\<close>, and \<open>G\<close> merges \<open>F1\<close> and \<open>F2\<close>. Branches point at \<open>G\<close>
  and \<open>F1\<close>. The merge-base of \<open>F1\<close> with \<open>master\<close> is \<open>M1\<close>, that of the others is \<open>M2\<close>.
\<close>

definition commit_M1 :: Commit where "commit_M1 = Commit ''M1'' []"
definition commit_M2 :: Commit where "commit_M2 = Commit ''M2'' [commit_M1]"
definition commit_F1 :: Commit where "commit_F1 = Commit ''F1'' [commit_M1]"
definition commit_F2 :: Commit where "commit_F2 = Commit ''F2'' [commit_M2]"
definition commit_G :: Commit where "commit_G = Commit ''G'' [commit_F1, commit_F2]"

definition two_trunk_repo :: Repository where
  "two_trunk_repo =
     \<lparr>objects = map_of [(''M1'', commit_M1), (''M2'', commit_M2), (''F1'', commit_F1),
                        (''F2'', commit_F2), (''G'', commit_G)],
      head_target = Some ''G'',
      local_branches = [(''master'', ''M2''), (''topic'', ''G''), (''first'', ''F1'')]\<rparr>"

definition two_trunk_merge_base :: MergeBaseDb where
  "two_trunk_merge_base lhs_oid rhs_oid = (if lhs_oid = ''F1'' then Some ''M1'' else Some ''M2'')"

text \<open>A graph of one master node, with the given visibility and children.\<close>

definition master_node :: "bool \<Rightarrow> OidStr list \<Rightarrow> unit Node" where
  "master_node visible cs =
     \<lparr>commit = commit_M, parent = None, children = cs, is_master = True,
      is_visible = visible, event = None\<rparr>"

definition hidden_leaf :: "Commit \<Rightarrow> OidStr \<Rightarrow> unit Node" where
  "hidden_leaf c parent_oid =
     \<lparr>commit = c, parent = Some parent_oid, children = [], is_master = False,
      is_visible = False, event = None\<rparr>"

section \<open>The pruner's predicate on master nodes\<close>

text \<open>
  C1. On a master node outside the unhideable set the source returns
  \<open>node.is_visible and all(...)\<close>, where its comment says "we only hide it if it's *not*
  visible". So a visible master node without children is hidden, and a master node marked
  not-visible, whose only child is a not-visible leaf that is not a master node, is kept:
  both against the claim.
\<close>

theorem should_hide_master_visible:
  "should_hide 1000 [(''M'', master_node True [])] {} ''M'' = Inr True \<and>
   should_hide 1000
     [(''M'', master_node False [''A'']), (''A'', hidden_leaf commit_A ''M'')] {} ''A''
     = Inr True \<and>
   should_hide 1000
     [(''M'', master_node False [''A'']), (''A'', hidden_leaf commit_A ''M'')] {} ''M''
     = Inr False"
  by code_simp

section \<open>The end-to-end scenario\<close>

text \<open>
  C2, as the claim states it, fails: the pruned graph of the linear history does not
  have the key set \<open>{M, C}\<close>.
\<close>

theorem linear_history_counterexample:
  "\<not> (case make_graph 1000 linear_repo merge_base_is_M linear_events ''M'' True of
        Inl e \<Rightarrow> False
      | Inr (head_oid, graph) \<Rightarrow>
          set (map fst graph) = {''M'', ''C''} \<and>
          map_option parent (map_of graph ''C'') = Some None)"
  by code_simp

text \<open>
  C2, amended: \<open>C\<close> is unhideable, so neither \<open>B\<close> nor \<open>A\<close> is hidden ("we can't hide them
  or their ancestors"). The graph returned has exactly the keys \<open>M\<close>, \<open>A\<close>, \<open>B\<close>, \<open>C\<close>, the
  parent of \<open>C\<close> is \<open>B\<close>, and the head returned is \<open>C\<close>.
\<close>

theorem linear_history_keeps_hidden_ancestors:
  "(case make_graph 1000 linear_repo merge_base_is_M linear_events ''M'' True of
      Inl e \<Rightarrow> False
    | Inr (head_oid, graph) \<Rightarrow>
        head_oid = ''C'' \<and>
        set (map fst graph) = {''M'', ''A'', ''B'', ''C''} \<and>
        map_option parent (map_of graph ''C'') = Some (Some ''B''))"
  by code_simp

section \<open>Links after pruning a merge\<close>

text \<open>
  C3. The linking pass adds the merge commit \<open>X\<close> to the children of both of its parents
  and records \<open>P2\<close> as its parent; pruning \<open>X\<close> removes it from the children of \<open>P2\<close> only.
  After pruning, the children of \<open>P1\<close> still hold \<open>X\<close>, which is no longer a key.
\<close>

theorem pruned_merge_dangling_child:
  "(case make_graph 1000 merge_repo merge_base_is_M merge_events ''M'' True of
      Inl e \<Rightarrow> False
    | Inr (head_oid, graph) \<Rightarrow>
        map_option children (map_of graph ''P1'') = Some [''X''] \<and>
        ''X'' \<notin> set (map fst graph) \<and>
        map_option children (map_of graph ''P2'') = Some [])"
  by code_simp

section \<open>Path finding: facts about the search\<close>

lemma set_ancestors:
  "set (ancestors c) = (\<Union>p\<in>set (parents c). insert p (set (ancestors p)))"
  by (cases c) auto

lemma parent_in_ancestors: "p \<in> set (parents c) \<Longrightarrow> p \<in> set (ancestors c)"
  by (subst set_ancestors) blast

lemma ancestors_of_parent:
  "p \<in> set (parents c) \<Longrightarrow> set (ancestors p) \<subseteq> set (ancestors c)"
  by (subst (2) set_ancestors) blast

lemma find_path_loop_unreachable:
  "\<forall>path\<in>set queue. path \<noteq> [] \<and> t \<notin> oid ` set (last path # ancestors (last path))
   \<Longrightarrow> find_path_loop t m queue = Inr None"
proof (induction t m queue rule: find_path_loop.induct)
  case (1 t m)
  show ?case by (rule find_path_loop.simps(1))
next
  case (2 t m queue)
  then show ?case by simp
next
  case (3 t m c cs queue)
  define path where "path = c # cs"
  have step: "find_path_loop t m (path # queue) =
     (if oid (last path) = t then Inr (Some path)
      else if Some (oid (last path)) = m then find_path_loop t m queue
      else find_path_loop t m (queue @ map (\<lambda>p. path @ [p]) (parents (last path))))"
    unfolding path_def by (rule find_path_loop.simps(3))
  have prems: "\<forall>p\<in>set (path # queue). p \<noteq> [] \<and> t \<notin> oid ` set (last p # ancestors (last p))"
    using "3.prems" unfolding path_def .
  have here: "oid (last path) \<noteq> t" and rest: "t \<notin> oid ` set (ancestors (last path))"
    using prems by auto
  have q: "\<forall>p\<in>set queue. p \<noteq> [] \<and> t \<notin> oid ` set (last p # ancestors (last p))"
    using prems by simp
  have ext: "\<forall>p\<in>set (map (\<lambda>p. path @ [p]) (parents (last path))).
               p \<noteq> [] \<and> t \<notin> oid ` set (last p # ancestors (last p))"
  proof
    fix p' assume "p' \<in> set (map (\<lambda>p. path @ [p]) (parents (last path)))"
    then obtain p where p: "p \<in> set (parents (last path))" and p': "p' = path @ [p]"
      by auto
    have "p \<in> set (ancestors (last path))" using p by (rule parent_in_ancestors)
    moreover have "set (ancestors p) \<subseteq> set (ancestors (last path))"
      using p by (rule ancestors_of_parent)
    ultimately have "set (p # ancestors p) \<subseteq> set (ancestors (last path))" by simp
    then have "t \<notin> oid ` set (p # ancestors p)" using rest by blast
    then show "p' \<noteq> [] \<and> t \<notin> oid ` set (last p' # ancestors (last p'))"
      using p' by simp
  qed
  have all: "\<forall>p\<in>set (queue @ map (\<lambda>p. path @ [p]) (parents (last path))).
               p \<noteq> [] \<and> t \<notin> oid ` set (last p # ancestors (last p))"
    using q ext by (simp only: set_append ball_Un)
  have "find_path_loop t m (path # queue) = Inr None"
  proof (cases "Some (oid (last path)) = m")
    case True
    have "find_path_loop t m queue = Inr None"
      using "3.IH"(1) here True q unfolding path_def by blast
    then show ?thesis using here True by (simp add: step)
  next
    case False
    have "find_path_loop t m (queue @ map (\<lambda>p. path @ [p]) (parents (last path))) = Inr None"
      using "3.IH"(2) here False all unfolding path_def by blast
    then show ?thesis using here False by (simp add: step)
  qed
  then show ?case unfolding path_def .
qed


lemma is_ancestry_path_append:
  "p \<noteq> [] \<Longrightarrow> q \<noteq> [] \<Longrightarrow>
   is_ancestry_path (p @ q) = (is_ancestry_path p \<and> hd q \<in> set (parents (last p)) \<and> is_ancestry_path q)"
proof (induction p rule: is_ancestry_path.induct)
  case 1
  then show ?case by simp
next
  case (2 c)
  then show ?case by (cases q) simp_all
next
  case (3 c d rest)
  then show ?case by auto
qed

lemma path_to_ancestor:
  "a \<in> set (ancestors c) \<Longrightarrow> \<exists>q. q \<noteq> [] \<and> hd q = c \<and> is_ancestry_path q \<and> last q = a"
proof (induction c)
  case (Commit i ps)
  from Commit.prems obtain p where p: "p \<in> set ps" and a: "a = p \<or> a \<in> set (ancestors p)"
    by auto
  show ?case
  proof (cases "a = p")
    case True
    have "is_ancestry_path [Commit i ps, p]" using p by simp
    then show ?thesis using True by (intro exI [of _ "[Commit i ps, p]"]) simp
  next
    case False
    then have "a \<in> set (ancestors p)" using a by simp
    from Commit.IH [OF p this] obtain q where
      q: "q \<noteq> []" "hd q = p" "is_ancestry_path q" "last q = a" by blast
    have "is_ancestry_path ([Commit i ps] @ q)"
      using q p by (subst is_ancestry_path_append) simp_all
    then show ?thesis using q by (intro exI [of _ "Commit i ps # q"]) simp
  qed
qed

lemma reachable_path:
  assumes "t \<in> oid ` set (c # ancestors c)"
  shows "\<exists>q. is_path_from_to c t q"
proof (cases "oid c = t")
  case True
  then have "is_path_from_to c t [c]" by (simp add: is_path_from_to_def)
  then show ?thesis ..
next
  case False
  then obtain a where "a \<in> set (ancestors c)" "oid a = t" using assms by auto
  then show ?thesis using path_to_ancestor [of a c] unfolding is_path_from_to_def by blast
qed

lemma find_path_loop_bfs:
  assumes "m = None \<or> m = Some t"
    and "\<forall>p\<in>set queue. p \<noteq> [] \<and> hd p = c \<and> is_ancestry_path p"
    and "sorted_wrt (\<lambda>a b. length a \<le> length b) queue"
    and "\<forall>p\<in>set queue. n \<le> length p \<and> length p \<le> Suc n"
    and "\<forall>q. is_path_from_to c t q \<longrightarrow> (\<exists>p\<in>set queue. \<exists>r. q = p @ r)"
    and "is_path_from_to c t q0"
  shows "\<exists>p. find_path_loop t m queue = Inr (Some p) \<and> is_path_from_to c t p \<and>
             (\<forall>q. is_path_from_to c t q \<longrightarrow> length p \<le> length q)"
  using assms
proof (induction t m queue arbitrary: n rule: find_path_loop.induct)
  case (1 t m)
  then show ?case by simp
next
  case (2 t m queue)
  then show ?case by simp
next
  case (3 t m d ds queue)
  define path where "path = d # ds"
  define exts where "exts = map (\<lambda>p. path @ [p]) (parents (last path))"
  have step: "find_path_loop t m (path # queue) =
     (if oid (last path) = t then Inr (Some path)
      else if Some (oid (last path)) = m then find_path_loop t m queue
      else find_path_loop t m (queue @ exts))"
    unfolding path_def exts_def by (rule find_path_loop.simps(3))
  have m: "m = None \<or> m = Some t" by (rule "3.prems"(1))
  have wf: "\<forall>p\<in>set (path # queue). p \<noteq> [] \<and> hd p = c \<and> is_ancestry_path p"
    using "3.prems"(2) unfolding path_def .
  have srt: "sorted_wrt (\<lambda>a b. length a \<le> length b) (path # queue)"
    using "3.prems"(3) unfolding path_def .
  have bnd: "\<forall>p\<in>set (path # queue). n \<le> length p \<and> length p \<le> Suc n"
    using "3.prems"(4) unfolding path_def .
  have cov: "\<forall>q. is_path_from_to c t q \<longrightarrow> (\<exists>p\<in>set (path # queue). \<exists>r. q = p @ r)"
    using "3.prems"(5) unfolding path_def .
  have path: "path \<noteq> []" "hd path = c" "is_ancestry_path path" using wf by simp_all
  have "\<exists>p. find_path_loop t m (path # queue) = Inr (Some p) \<and> is_path_from_to c t p \<and>
             (\<forall>q. is_path_from_to c t q \<longrightarrow> length p \<le> length q)"
  proof (cases "oid (last path) = t")
    case True
    have res: "find_path_loop t m (path # queue) = Inr (Some path)"
      using True by (simp add: step)
    have ok: "is_path_from_to c t path"
      using path True by (simp add: is_path_from_to_def)
    have least: "length path \<le> length q" if "is_path_from_to c t q" for q
    proof -
      from cov that obtain p r where p: "p \<in> set (path # queue)" and q: "q = p @ r" by blast
      have "length path \<le> length p" using srt p by auto
      then show ?thesis using q by simp
    qed
    show ?thesis using res ok least by blast
  next
    case False
    then have nm: "Some (oid (last path)) \<noteq> m" using m by auto
    have res: "find_path_loop t m (path # queue) = find_path_loop t m (queue @ exts)"
      using False nm by (simp add: step)
    have wf': "\<forall>p\<in>set (queue @ exts). p \<noteq> [] \<and> hd p = c \<and> is_ancestry_path p"
    proof
      fix p assume "p \<in> set (queue @ exts)"
      then consider "p \<in> set queue" | x where "x \<in> set (parents (last path))" "p = path @ [x]"
        unfolding exts_def by auto
      then show "p \<noteq> [] \<and> hd p = c \<and> is_ancestry_path p"
      proof cases
        case 1
        then show ?thesis using wf by simp
      next
        case 2
        have "is_ancestry_path (path @ [x])"
          using path 2(1) by (subst is_ancestry_path_append) simp_all
        then show ?thesis using 2(2) path by simp
      qed
    qed
    have len_q: "\<forall>p\<in>set queue. length path \<le> length p \<and> length p \<le> Suc (length path)"
      using srt bnd by auto
    have len_e: "\<forall>p\<in>set exts. length p = Suc (length path)"
      unfolding exts_def by auto
    have srt': "sorted_wrt (\<lambda>a b. length a \<le> length b) (queue @ exts)"
      using srt len_q len_e by (auto simp: sorted_wrt_append exts_def sorted_wrt_map)
    have bnd': "\<forall>p\<in>set (queue @ exts). length path \<le> length p \<and> length p \<le> Suc (length path)"
      using len_q len_e by auto
    have cov': "\<forall>q. is_path_from_to c t q \<longrightarrow> (\<exists>p\<in>set (queue @ exts). \<exists>r. q = p @ r)"
    proof (intro allI impI)
      fix q assume q: "is_path_from_to c t q"
      from cov q obtain p r where p: "p \<in> set (path # queue)" and qr: "q = p @ r" by blast
      show "\<exists>p\<in>set (queue @ exts). \<exists>r. q = p @ r"
      proof (cases "p = path")
        case True
        have "r \<noteq> []"
        proof
          assume "r = []"
          then have "oid (last path) = t" using q qr True by (simp add: is_path_from_to_def)
          then show False using False by simp
        qed
        then obtain x r' where r: "r = x # r'" by (cases r) auto
        have "is_ancestry_path (path @ r)" using q qr True by (simp add: is_path_from_to_def)
        then have "x \<in> set (parents (last path))"
          using path r by (subst (asm) is_ancestry_path_append) simp_all
        then have "path @ [x] \<in> set exts" unfolding exts_def by simp
        moreover have "q = (path @ [x]) @ r'" using qr True r by simp
        ultimately show ?thesis by (metis Un_iff set_append)
      next
        case False
        then have "p \<in> set queue" using p by simp
        then show ?thesis using qr by auto
      qed
    qed
    from "3.IH"(2) [of "length path"] False nm m wf' srt' bnd' cov' "3.prems"(6)
    have "\<exists>p. find_path_loop t m (queue @ exts) = Inr (Some p) \<and> is_path_from_to c t p \<and>
             (\<forall>q. is_path_from_to c t q \<longrightarrow> length p \<le> length q)"
      unfolding path_def exts_def by blast
    then show ?thesis using res by simp
  qed
  then show ?case unfolding path_def .
qed

section \<open>Path finding: the merge-base cutoff\<close>

text \<open>
  C4, as the claim states it, fails. In the linear history take \<open>B\<close> as the start and its
  parent \<open>A\<close> as the target: their merge-base is \<open>A\<close>, the start \<open>B\<close> is not an ancestor
  of the target \<open>A\<close>, and the search returns the path \<open>[B, A]\<close>, not absent.
\<close>

theorem find_path_not_ancestor_counterexample:
  "objects linear_repo ''B'' = Some commit_B \<and> objects linear_repo ''A'' = Some commit_A \<and>
   is_merge_base commit_B commit_A ''A'' \<and>
   \<not> is_ancestor commit_B commit_A \<and>
   find_path_to_merge_base linear_repo (\<lambda>lhs rhs. Some ''A'') ''B'' ''A''
     = Inr (Some [commit_B, commit_A])"
  by code_simp

text \<open>
  C4, amended: the hypothesis needed is that the target is not reachable from the start
  (the target is neither the start nor one of its ancestors). Then the search returns
  absent, whatever merge-base the database reports. A path whose last commit is the
  target is returned at once; a path whose last commit is the merge-base, and not the
  target, is dropped; the empty queue yields absent.
\<close>

theorem find_path_absent:
  "(objects repo a = Some c \<and> b \<notin> oid ` set (c # ancestors c)
      \<longrightarrow> find_path_to_merge_base repo merge_base_db a b = Inr None) \<and>
   (oid (last (x # xs)) = t \<longrightarrow>
      find_path_loop t m ((x # xs) # queue) = Inr (Some (x # xs))) \<and>
   (oid (last (x # xs)) \<noteq> t \<and> Some (oid (last (x # xs))) = m \<longrightarrow>
      find_path_loop t m ((x # xs) # queue) = find_path_loop t m queue) \<and>
   find_path_loop t m [] = Inr None"
proof -
  have "find_path_to_merge_base repo merge_base_db a b = Inr None"
    if "objects repo a = Some c" and "b \<notin> oid ` set (c # ancestors c)"
  proof -
    have "find_path_loop b (merge_base_db a b) [[c]] = Inr None"
      using that(2) by (intro find_path_loop_unreachable) simp
    then show ?thesis
      using that(1) by (simp only: find_path_to_merge_base_def option.case)
  qed
  moreover have "find_path_loop t m ((x # xs) # queue) = Inr (Some (x # xs))"
    if "oid (last (x # xs)) = t"
    using that by (subst find_path_loop.simps) simp
  moreover have "find_path_loop t m ((x # xs) # queue) = find_path_loop t m queue"
    if "oid (last (x # xs)) \<noteq> t" and "Some (oid (last (x # xs))) = m"
    using that by (subst find_path_loop.simps) simp
  moreover have "find_path_loop t m [] = Inr None" by (rule find_path_loop.simps(1))
  ultimately show ?thesis by blast
qed

text \<open>
  The two-branch example: \<open>P1\<close> and \<open>P2\<close> share only \<open>M\<close>, which is their merge-base. The
  search from \<open>P1\<close> for \<open>P2\<close> is absent, and the search from \<open>P1\<close> for \<open>M\<close> is \<open>[P1, M]\<close>.
\<close>

theorem find_path_absent_witness:
  "objects merge_repo ''P1'' = Some commit_P1 \<and>
   ''P2'' \<notin> oid ` set (commit_P1 # ancestors commit_P1) \<and>
   is_merge_base commit_P1 commit_P2 ''M'' \<and>
   find_path_to_merge_base merge_repo merge_base_is_M ''P1'' ''P2'' = Inr None \<and>
   find_path_to_merge_base merge_repo merge_base_is_M ''P1'' ''M''
     = Inr (Some [commit_P1, commit_M])"
proof -
  have h1: "objects merge_repo ''P1'' = Some commit_P1" by code_simp
  have h2: "''P2'' \<notin> oid ` set (commit_P1 # ancestors commit_P1)" by code_simp
  have mb: "is_merge_base commit_P1 commit_P2 ''M''" by code_simp
  have ev: "find_path_to_merge_base merge_repo merge_base_is_M ''P1'' ''M''
     = Inr (Some [commit_P1, commit_M])" by code_simp
  have "find_path_to_merge_base merge_repo merge_base_is_M ''P1'' ''P2'' = Inr None"
    using find_path_absent [of merge_repo "''P1''" commit_P1 "''P2''" merge_base_is_M] h1 h2
    by blast
  then show ?thesis using h1 h2 mb ev by blast
qed

section \<open>Path finding: a shortest path\<close>

lemma merge_base_of_ancestor:
  assumes "is_merge_base c t m" and "oid t \<in> oid ` set (c # ancestors c)"
  shows "m = oid t"
proof (rule ccontr)
  assume ne: "m \<noteq> oid t"
  have m: "m \<in> oid ` set (t # ancestors t)" using assms(1) by (simp add: is_merge_base_def)
  then have below: "m \<in> set (map oid (ancestors t))" using ne by auto
  have "t \<in> set (c # ancestors c) \<union> set (t # ancestors t)" by simp
  moreover have "oid t \<in> set (map oid (c # ancestors c))" using assms(2) by simp
  moreover have "oid t \<in> set (map oid (t # ancestors t))" by simp
  moreover have "oid t \<noteq> m" using ne by simp
  ultimately have "m \<notin> set (map oid (ancestors t))"
    using assms(1) unfolding is_merge_base_def by blast
  then show False using below by simp
qed

text \<open>
  C8. The start and the target are commits of the repository, the target is reachable
  from the start by parent links, and the merge-base that the database reports for the
  two, if any, is a merge-base of them (it is then the target itself). The search returns
  a path that begins with the start, ends with the target and follows parent links, and
  no ancestry path from the start commit to the target is shorter.
\<close>

theorem find_path_shortest:
  assumes "objects repo start = Some c" and "oid c = start"
    and "objects repo target = Some t" and "oid t = target"
    and "target \<in> oid ` set (c # ancestors c)"
    and "\<forall>m. merge_base_db start target = Some m \<longrightarrow> is_merge_base c t m"
  shows "\<exists>p. find_path_to_merge_base repo merge_base_db start target = Inr (Some p) \<and>
             p \<noteq> [] \<and> oid (hd p) = start \<and> oid (last p) = target \<and> is_ancestry_path p \<and>
             (\<forall>q. q \<noteq> [] \<and> hd q = c \<and> is_ancestry_path q \<and> oid (last q) = target
                  \<longrightarrow> length p \<le> length q)"
proof -
  let ?m = "merge_base_db start target"
  have m: "?m = None \<or> ?m = Some target"
  proof (cases ?m)
    case None
    then show ?thesis by simp
  next
    case (Some m)
    then have "is_merge_base c t m" using assms(6) by simp
    then have "m = oid t" using assms(4,5) by (intro merge_base_of_ancestor) simp_all
    then show ?thesis using Some assms(4) by simp
  qed
  obtain q0 where q0: "is_path_from_to c target q0"
    using reachable_path [OF assms(5)] by blast
  have cov: "\<forall>q. is_path_from_to c target q \<longrightarrow> (\<exists>p\<in>set [[c]]. \<exists>r. q = p @ r)"
  proof (intro allI impI)
    fix q assume "is_path_from_to c target q"
    then have "q \<noteq> []" "hd q = c" by (simp_all add: is_path_from_to_def)
    then have "q = [c] @ tl q" by (cases q) simp_all
    then show "\<exists>p\<in>set [[c]]. \<exists>r. q = p @ r" by auto
  qed
  have "\<exists>p. find_path_loop target ?m [[c]] = Inr (Some p) \<and> is_path_from_to c target p \<and>
             (\<forall>q. is_path_from_to c target q \<longrightarrow> length p \<le> length q)"
    using m cov q0 by (intro find_path_loop_bfs [where n = 1]) simp_all
  then obtain p where p: "find_path_loop target ?m [[c]] = Inr (Some p)"
    "is_path_from_to c target p" "\<forall>q. is_path_from_to c target q \<longrightarrow> length p \<le> length q"
    by blast
  have "find_path_to_merge_base repo merge_base_db start target = Inr (Some p)"
    using p(1) assms(1) by (simp add: find_path_to_merge_base_def)
  then show ?thesis using p(2,3) assms(2) unfolding is_path_from_to_def by blast
qed

theorem find_path_shortest_witness:
  "objects linear_repo ''C'' = Some commit_C \<and> oid commit_C = ''C'' \<and>
   objects linear_repo ''M'' = Some commit_M \<and> oid commit_M = ''M'' \<and>
   ''M'' \<in> oid ` set (commit_C # ancestors commit_C) \<and>
   is_merge_base commit_C commit_M ''M'' \<and>
   merge_base_is_M ''C'' ''M'' = Some ''M'' \<and>
   find_path_to_merge_base linear_repo merge_base_is_M ''C'' ''M''
     = Inr (Some [commit_C, commit_B, commit_A, commit_M]) \<and>
   (\<exists>p. find_path_to_merge_base linear_repo merge_base_is_M ''C'' ''M'' = Inr (Some p) \<and>
        oid (hd p) = ''C'' \<and> oid (last p) = ''M'' \<and> is_ancestry_path p)"
proof -
  have h1: "objects linear_repo ''C'' = Some commit_C" by code_simp
  have h2: "oid commit_C = ''C''" by code_simp
  have h3: "objects linear_repo ''M'' = Some commit_M" by code_simp
  have h4: "oid commit_M = ''M''" by code_simp
  have h5: "''M'' \<in> oid ` set (commit_C # ancestors commit_C)" by code_simp
  have mb: "is_merge_base commit_C commit_M ''M''" by code_simp
  have db: "merge_base_is_M ''C'' ''M'' = Some ''M''" by code_simp
  have h6: "\<forall>m. merge_base_is_M ''C'' ''M'' = Some m \<longrightarrow> is_merge_base commit_C commit_M m"
    using mb db by simp
  have ev: "find_path_to_merge_base linear_repo merge_base_is_M ''C'' ''M''
     = Inr (Some [commit_C, commit_B, commit_A, commit_M])" by code_simp
  from find_path_shortest
    [where repo = linear_repo and merge_base_db = merge_base_is_M, OF h1 h2 h3 h4 h5 h6]
  have "\<exists>p. find_path_to_merge_base linear_repo merge_base_is_M ''C'' ''M'' = Inr (Some p) \<and>
        oid (hd p) = ''C'' \<and> oid (last p) = ''M'' \<and> is_ancestry_path p" by blast
  then show ?thesis using h1 h2 h3 h4 h5 mb db ev by blast
qed

end
